theory Spec2Isabelle
  imports Main "HOL-Library.Sublist"
begin

section \<open>Text primitives of the auditors\<close>

text \<open>
  Source text is a \<^typ>\<open>string\<close>; a character stands for the code point of the same
  number, so the model covers the texts of code points 0 to 255. The character classes are
  those of Python's \<^verbatim>\<open>re\<close> (on \<^verbatim>\<open>str\<close> patterns) and \<^verbatim>\<open>str\<close> on that range:
  \<^verbatim>\<open>\s\<close> is \<^verbatim>\<open>str.isspace\<close>, that is \<^verbatim>\<open>[\t\n\v\f\r\x1c-\x1f \x85\xa0]\<close>;
  \<^verbatim>\<open>\w\<close> is the underscore and \<^verbatim>\<open>str.isalnum\<close>, that is \<^verbatim>\<open>[0-9A-Za-z_]\<close> and the
  Latin-1 letters, digits and fractions
  \<^verbatim>\<open>\xaa \xb2 \xb3 \xb5 \xb9 \xba \xbc-\xbe \xc0-\xd6 \xd8-\xf6 \xf8-\xff\<close>;
  and \<^verbatim>\<open>str.splitlines\<close> breaks at \<^verbatim>\<open>\n \r \r\n \v \f \x1c \x1d \x1e \x85\<close>.
\<close>

definition is_space :: "char \<Rightarrow> bool" where
  "is_space c = (let n = (of_char c :: nat) in
     (9 \<le> n \<and> n \<le> 13) \<or> (28 \<le> n \<and> n \<le> 32) \<or> n = 133 \<or> n = 160)"

definition is_word :: "char \<Rightarrow> bool" where
  "is_word c = (let n = (of_char c :: nat) in
     (48 \<le> n \<and> n \<le> 57) \<or> (65 \<le> n \<and> n \<le> 90) \<or> n = 95 \<or> (97 \<le> n \<and> n \<le> 122)
     \<or> n = 170 \<or> n = 178 \<or> n = 179 \<or> n = 181 \<or> n = 185 \<or> n = 186
     \<or> (188 \<le> n \<and> n \<le> 190) \<or> (192 \<le> n \<and> n \<le> 214)
     \<or> (216 \<le> n \<and> n \<le> 246) \<or> (248 \<le> n \<and> n \<le> 255))"

definition is_linebreak :: "char \<Rightarrow> bool" where
  "is_linebreak c = (let n = (of_char c :: nat) in
     (10 \<le> n \<and> n \<le> 13) \<or> (28 \<le> n \<and> n \<le> 30) \<or> n = 133)"

text \<open>\<^verbatim>\<open>s.startswith(p)\<close>, \<^verbatim>\<open>s.endswith(p)\<close> and \<^verbatim>\<open>p in s\<close> on strings.\<close>

definition startswith :: "string \<Rightarrow> string \<Rightarrow> bool" where
  "startswith s p = (take (length p) s = p)"

definition endswith :: "string \<Rightarrow> string \<Rightarrow> bool" where
  "endswith s p = (length p \<le> length s \<and> drop (length s - length p) s = p)"

fun py_in :: "string \<Rightarrow> string \<Rightarrow> bool" where
  "py_in p [] = (p = [])"
| "py_in p (c # cs) = (startswith (c # cs) p \<or> py_in p cs)"

text \<open>
  \<^verbatim>\<open>content.splitlines()\<close>: the text is cut at every line boundary, \<^verbatim>\<open>\r\n\<close> counting
  as one boundary, and a boundary at the very end opens no further line.
\<close>

fun splitlines_from :: "string \<Rightarrow> string \<Rightarrow> string list" where
  "splitlines_from cur [] = (if cur = [] then [] else [cur])"
| "splitlines_from cur (c # cs) =
     (if c = CHR 0x0D \<and> cs \<noteq> [] \<and> hd cs = CHR 0x0A then cur # splitlines_from [] (tl cs)
      else if is_linebreak c then cur # splitlines_from [] cs
      else splitlines_from (cur @ [c]) cs)"

definition splitlines :: "string \<Rightarrow> string list" where
  "splitlines s = splitlines_from [] s"

section \<open>Proof session tree (xml.etree.ElementTree)\<close>

text \<open>
  An \<^verbatim>\<open>Element\<close> object of the parsed session: the identity of the object, its tag, its
  attributes, its text and tail, and its children in document order. Python compares
  elements by identity (\<^verbatim>\<open>child != child_to_keep\<close>, \<^verbatim>\<open>goal.remove(child)\<close>), so the
  identity is part of the model. In a parsed tree every object occurs once: the identities
  listed by \<open>idents\<close> are pairwise distinct.
\<close>

datatype element =
  Element (ident: nat) (tag: string) (attrib: "(string \<times> string) list")
          (text_of: "string option") (tail_of: "string option") (children: "element list")

text \<open>\<^verbatim>\<open>root.iter()\<close>: the element itself and all its descendants, in document order.\<close>

fun iter :: "element \<Rightarrow> element list" where
  "iter (Element i tg att tx tal cs) = Element i tg att tx tal cs # concat (map iter cs)"

definition idents :: "element \<Rightarrow> nat list" where
  "idents e = map ident (iter e)"

text \<open>
  \<^verbatim>\<open>root.findall(".//goal")\<close>: the descendants of the root tagged \<^verbatim>\<open>goal\<close>, in document
  order, the root itself left out. The list is built before the loop over it starts.
\<close>

definition findall_goal :: "element \<Rightarrow> element list" where
  "findall_goal root = filter (\<lambda>e. tag e = ''goal'') (concat (map iter (children root)))"

section \<open>Tree Pruner (cleanProofTree.py)\<close>

text \<open>
  The first inner loop of \<^verbatim>\<open>clean_proof_tree\<close> over the children of a goal. It stops at the
  first child tagged \<^verbatim>\<open>transf\<close>; a child tagged \<^verbatim>\<open>proof\<close> is recorded only when
  \<^verbatim>\<open>proof_child is not None\<close>. The result is the pair of \<^verbatim>\<open>transf_child\<close> and
  \<^verbatim>\<open>proof_child\<close>.
\<close>

fun scan_children :: "element list \<Rightarrow> element option \<Rightarrow> element option \<times> element option" where
  "scan_children [] proof_child = (None, proof_child)"
| "scan_children (child # rest) proof_child =
     (if tag child = ''transf'' then (Some child, proof_child)
      else if tag child = ''proof'' \<and> proof_child \<noteq> None then scan_children rest (Some child)
      else scan_children rest proof_child)"

definition child_to_keep :: "element list \<Rightarrow> element option" where
  "child_to_keep kids =
     (case scan_children kids None of
        (Some transf_child, _) \<Rightarrow> Some transf_child
      | (None, proof_child) \<Rightarrow> proof_child)"

text \<open>\<^verbatim>\<open>goal.remove(child)\<close> takes the first child that is this object out of the list.\<close>

fun remove_child :: "element \<Rightarrow> element list \<Rightarrow> element list" where
  "remove_child child [] = []"
| "remove_child child (k # ks) = (if ident k = ident child then ks else k # remove_child child ks)"

text \<open>
  The second inner loop runs over \<^verbatim>\<open>list(goal)\<close>, the children as they were when it
  started, and removes from the goal every child that is not \<^verbatim>\<open>child_to_keep\<close> and is
  tagged \<^verbatim>\<open>proof\<close> or \<^verbatim>\<open>transf\<close>.
\<close>

definition remove_others :: "element \<Rightarrow> element list \<Rightarrow> element list" where
  "remove_others keep kids =
     foldl (\<lambda>ks child.
              if ident child \<noteq> ident keep \<and> tag child \<in> {''proof'', ''transf''}
              then remove_child child ks else ks)
           kids kids"

text \<open>The body of the outer loop for one goal, as a function on its list of children.\<close>

definition prune_goal :: "element list \<Rightarrow> element list" where
  "prune_goal kids =
     (case child_to_keep kids of None \<Rightarrow> kids | Some keep \<Rightarrow> remove_others keep kids)"

text \<open>
  The effect on the tree under the root of changing the children of the object with
  identity \<open>i\<close>. An object that an earlier removal has detached from the tree is no longer
  found there, and changing it leaves the tree under the root as it is.
\<close>

fun update_children :: "nat \<Rightarrow> (element list \<Rightarrow> element list) \<Rightarrow> element \<Rightarrow> element" where
  "update_children i f (Element j tg att tx tal cs) =
     (if i = j then Element j tg att tx tal (f cs)
      else Element j tg att tx tal (map (update_children i f) cs))"

text \<open>
  \<^verbatim>\<open>clean_proof_tree\<close>: the outer loop visits the goals found at the start, in document
  order, and returns the root.
\<close>

definition clean_proof_tree :: "element \<Rightarrow> element" where
  "clean_proof_tree root =
     foldl (\<lambda>t goal. update_children (ident goal) prune_goal t) root (findall_goal root)"

subsection \<open>The pruner in one pass\<close>

text \<open>
  A description of the result by one recursive pass, used to reason about the loop: below
  the root, the children of every goal are pruned after their own subtrees have been. The
  children a goal keeps are the first child tagged \<^verbatim>\<open>transf\<close> and the children tagged
  neither \<^verbatim>\<open>proof\<close> nor \<^verbatim>\<open>transf\<close>; without a child tagged \<^verbatim>\<open>transf\<close> it keeps them all.
\<close>

fun prune :: "element \<Rightarrow> element" where
  "prune (Element j tg att tx tal cs) =
     Element j tg att tx tal (if tg = ''goal'' then prune_goal (map prune cs) else map prune cs)"

definition retained :: "element \<Rightarrow> element \<Rightarrow> bool" where
  "retained keep c = (ident c = ident keep \<or> tag c \<notin> {''proof'', ''transf''})"

definition first_transf :: "element list \<Rightarrow> element option" where
  "first_transf kids = find (\<lambda>c. tag c = ''transf'') kids"

definition surviving :: "element list \<Rightarrow> element list" where
  "surviving kids = (case first_transf kids of
        None \<Rightarrow> kids
      | Some keep \<Rightarrow> filter (retained keep) kids)"

definition goal_ids :: "element \<Rightarrow> nat list" where
  "goal_ids n = map ident (filter (\<lambda>e. tag e = ''goal'') (iter n))"

abbreviation upd :: "element \<Rightarrow> nat \<Rightarrow> element" where
  "upd t i \<equiv> update_children i prune_goal t"

section \<open>Coverage Auditor (checkAllFilesHaveProof.py)\<close>

text \<open>
  The auditor reads the parsed session tree and the listing of the directory \<^verbatim>\<open>src/\<close>;
  both are inputs of the model. \<^verbatim>\<open>elem.attrib['name']\<close> raises \<^verbatim>\<open>KeyError\<close> on an element
  without that attribute, and the exception leaves the check.
\<close>

datatype py_error = KeyError string

text \<open>
  \<^verbatim>\<open>extract_mlw_filenames_from_session\<close>: the loop over \<^verbatim>\<open>root.iter()\<close>, the root and all
  its descendants in document order, with the set built so far.
\<close>

fun extract_session_loop :: "element list \<Rightarrow> string set \<Rightarrow> py_error + string set" where
  "extract_session_loop [] mlw_filenames = Inr mlw_filenames"
| "extract_session_loop (elem # rest) mlw_filenames =
     (if tag elem = ''path'' then
        (case map_of (attrib elem) ''name'' of
           None \<Rightarrow> Inl (KeyError ''name'')
         | Some name \<Rightarrow>
             extract_session_loop rest
               (if endswith name ''.mlw'' then insert name mlw_filenames else mlw_filenames))
      else extract_session_loop rest mlw_filenames)"

definition extract_mlw_filenames_from_session :: "element \<Rightarrow> py_error + string set" where
  "extract_mlw_filenames_from_session root = extract_session_loop (iter root) {}"

text \<open>\<^verbatim>\<open>extract_mlw_filenames_from_directory\<close>, on the result of \<^verbatim>\<open>listdir('src/')\<close>.\<close>

definition extract_mlw_filenames_from_directory :: "string list \<Rightarrow> string set" where
  "extract_mlw_filenames_from_directory listing =
     foldl (\<lambda>mlw_filenames file_name.
              if endswith file_name ''.mlw'' then insert file_name mlw_filenames
              else mlw_filenames) {} listing"

text \<open>
  What the check prints: a line of text, or the members of a set one per line in the
  iteration order of the set, which Python leaves open. The check either returns to its
  caller or ends the process through \<^verbatim>\<open>exit(1)\<close>.
\<close>

datatype printed = Line string | Files "string set"

datatype outcome = Returned | Exited nat

definition check_whyml_files_proven ::
  "element \<Rightarrow> string list \<Rightarrow> py_error + (printed list \<times> outcome)" where
  "check_whyml_files_proven root listing =
     (case extract_mlw_filenames_from_session root of
        Inl e \<Rightarrow> Inl e
      | Inr session_filenames \<Rightarrow>
          (let directory_filenames = extract_mlw_filenames_from_directory listing;
               relevant_directory_filenames = directory_filenames - {''twoHonestParties.mlw''}
           in if session_filenames = relevant_directory_filenames then
                Inr ([Line ''Proof availability check PASSED:'',
                      Line ''Apart from twoHonestParties.mlw, all *.mlw files in the directory have a proof in the proof tree and vice versa.''],
                     Returned)
              else
                (let extra_in_session = session_filenames - relevant_directory_filenames;
                     extra_in_directory = relevant_directory_filenames - session_filenames
                 in Inr ([Line ''Proof availability check FAILED:'']
                         @ (if extra_in_session \<noteq> {} then
                              [Line ''*.mlw files in proof tree but not in directory:'',
                               Files extra_in_session]
                            else [])
                         @ (if extra_in_directory \<noteq> {} then
                              [Line ''*.mlw files in directory but not in proof tree:'',
                               Files extra_in_directory]
                            else []),
                         Exited 1))))"

text \<open>
  The sets the specification speaks of: the names ending in \<^verbatim>\<open>.mlw\<close> of the \<^verbatim>\<open>path\<close>
  elements of the session, and the file names ending in \<^verbatim>\<open>.mlw\<close> of the directory.
\<close>

definition session_mlw_names :: "element \<Rightarrow> string set" where
  "session_mlw_names root =
     set (filter (\<lambda>name. endswith name ''.mlw'')
            (List.map_filter
               (\<lambda>elem. if tag elem = ''path'' then map_of (attrib elem) ''name'' else None)
               (iter root)))"

definition directory_mlw_names :: "string list \<Rightarrow> string set" where
  "directory_mlw_names listing = set (filter (\<lambda>file_name. endswith file_name ''.mlw'') listing)"

section \<open>Statement/Proof Separation Auditor (checkStatementProofConv.py)\<close>

subsection \<open>remove_comments\<close>

text \<open>
  \<^verbatim>\<open>re.sub(re.compile(r'\(\*.*?\*\)', re.DOTALL), '', content)\<close>. The scan goes left to
  right. At a position where the text reads \<^verbatim>\<open>(*\<close>, the lazy \<^verbatim>\<open>.*?\<close> (any character,
  newlines included) stops at the first \<^verbatim>\<open>*)\<close> that starts at or after the character
  behind the open marker; the whole match is dropped and the scan resumes behind it.
  Where no match starts, the character is kept and the scan moves on by one.
  \<open>find_close s\<close> is the text behind the first \<^verbatim>\<open>*)\<close> of \<open>s\<close>, if there is one.
\<close>

fun find_close :: "string \<Rightarrow> string option" where
  "find_close (a # b # cs) =
     (if a = CHR ''*'' \<and> b = CHR '')'' then Some cs else find_close (b # cs))"
| "find_close cs = None"

definition match_comment :: "string \<Rightarrow> string option" where
  "match_comment s =
     (case s of
        a # b # cs \<Rightarrow> if a = CHR ''('' \<and> b = CHR ''*'' then find_close cs else None
      | _ \<Rightarrow> None)"

lemma find_close_length: "find_close s = Some r \<Longrightarrow> length r < length s"
  by (induction s arbitrary: r rule: find_close.induct) (auto split: if_splits)

lemma match_comment_length: "match_comment s = Some r \<Longrightarrow> length r < length s"
  by (auto simp: match_comment_def split: list.splits if_splits dest: find_close_length)

function remove_comments :: "string \<Rightarrow> string" where
  "remove_comments [] = []"
| "remove_comments (c # cs) =
     (case match_comment (c # cs) of
        Some rest \<Rightarrow> remove_comments rest
      | None \<Rightarrow> c # remove_comments cs)"
  by pat_completeness auto
termination
  by (relation "measure length") (auto dest: match_comment_length)

subsection \<open>check_lemma_axiom_in_lemmas\<close>

text \<open>
  \<^verbatim>\<open>re.match(re.compile(r'module\s+(\w+)\s*'), line)\<close> anchors at the start of the line:
  the literal \<^verbatim>\<open>module\<close>, at least one whitespace character, then the longest run of
  word characters (at least one), which is group 1. Whitespace and word characters are
  disjoint, so the greedy \<^verbatim>\<open>\s+\<close> gains nothing by giving characters back.
\<close>

definition match_module :: "string \<Rightarrow> string option" where
  "match_module line =
     (if startswith line ''module'' then
        (let r = drop 6 line; name = takeWhile is_word (dropWhile is_space r) in
         if takeWhile is_space r \<noteq> [] \<and> name \<noteq> [] then Some name else None)
      else None)"

record scan_state =
  current_module :: "string option"
  errors :: "string list"

definition mentions_lemma_or_axiom :: "string \<Rightarrow> bool" where
  "mentions_lemma_or_axiom line = (py_in ''val lemma'' line \<or> py_in ''axiom'' line)"

definition placement_error :: "string \<Rightarrow> string \<Rightarrow> string" where
  "placement_error file_path m =
     ''Error in '' @ file_path @ '': 'val lemma' or 'axiom' found in non-Lemmas module ''
       @ [CHR 0x27] @ m"

text \<open>
  One turn of the \<^verbatim>\<open>for line in content.splitlines()\<close> loop. The test
  \<^verbatim>\<open>if current_module and ...\<close> is false for \<^verbatim>\<open>None\<close> and for the empty string.
\<close>

definition scan_line :: "string \<Rightarrow> scan_state \<Rightarrow> string \<Rightarrow> scan_state" where
  "scan_line file_path st line =
     (let cm = (case match_module line of Some m \<Rightarrow> Some m | None \<Rightarrow> current_module st) in
      if mentions_lemma_or_axiom line then
        (case cm of
           Some m \<Rightarrow>
             if m \<noteq> [] \<and> \<not> endswith m ''Lemmas'' \<and> \<not> endswith m ''Spec''
             then \<lparr>current_module = cm, errors = errors st @ [placement_error file_path m]\<rparr>
             else \<lparr>current_module = cm, errors = errors st\<rparr>
         | None \<Rightarrow> \<lparr>current_module = cm, errors = errors st\<rparr>)
      else \<lparr>current_module = cm, errors = errors st\<rparr>)"

definition scan_lines :: "string \<Rightarrow> string list \<Rightarrow> scan_state" where
  "scan_lines file_path lines =
     foldl (scan_line file_path) \<lparr>current_module = None, errors = []\<rparr> lines"

text \<open>The file's text \<open>content\<close> is what \<^verbatim>\<open>f.read()\<close> returned.\<close>

definition check_lemma_axiom_in_lemmas :: "string \<Rightarrow> string \<Rightarrow> string list" where
  "check_lemma_axiom_in_lemmas file_path content =
     errors (scan_lines file_path (splitlines (remove_comments content)))"

text \<open>
  The rule of Check A in the specification's words: the current module at line \<open>k\<close> is
  named by the last line, among lines \<open>0\<close> to \<open>k\<close>, that matches a module declaration at
  its start; a line is in error when it mentions a lemma or axiom declaration and the
  current module's name ends in neither \<^verbatim>\<open>Lemmas\<close> nor \<^verbatim>\<open>Spec\<close>.
\<close>

definition last_module :: "string list \<Rightarrow> string option" where
  "last_module lines =
     (let ms = filter (\<lambda>l. match_module l \<noteq> None) lines
      in if ms = [] then None else match_module (last ms))"

definition current_module_at :: "string list \<Rightarrow> nat \<Rightarrow> string option" where
  "current_module_at lines k = last_module (take (Suc k) lines)"

definition line_errors :: "string \<Rightarrow> string list \<Rightarrow> nat \<Rightarrow> string list" where
  "line_errors file_path lines k =
     (case current_module_at lines k of
        Some m \<Rightarrow>
          if mentions_lemma_or_axiom (lines ! k) \<and> \<not> endswith m ''Lemmas'' \<and> \<not> endswith m ''Spec''
          then [placement_error file_path m] else []
      | None \<Rightarrow> [])"

text \<open>
  The specification's reading of the comment pattern, for comparison: a greedy match
  \<^verbatim>\<open>\(\*.*\*\)\<close> runs from an open marker to the last close marker of the text. Behind
  that match no close marker is left, so nothing further can match.
\<close>

fun find_last_close :: "string \<Rightarrow> string option" where
  "find_last_close (a # b # cs) =
     (case find_last_close (b # cs) of
        Some r \<Rightarrow> Some r
      | None \<Rightarrow> if a = CHR ''*'' \<and> b = CHR '')'' then Some cs else None)"
| "find_last_close cs = None"

definition match_comment_greedy :: "string \<Rightarrow> string option" where
  "match_comment_greedy s =
     (case s of
        a # b # cs \<Rightarrow> if a = CHR ''('' \<and> b = CHR ''*'' then find_last_close cs else None
      | _ \<Rightarrow> None)"

fun remove_comments_greedy :: "string \<Rightarrow> string" where
  "remove_comments_greedy [] = []"
| "remove_comments_greedy (c # cs) =
     (case match_comment_greedy (c # cs) of
        Some rest \<Rightarrow> rest
      | None \<Rightarrow> c # remove_comments_greedy cs)"

subsection \<open>check_proofs_for_lemmas\<close>

text \<open>
  \<^verbatim>\<open>pattern.findall(content)\<close>: the scan tries a match at every position from the left;
  a match of \<open>n\<close> characters yields its groups and the scan resumes \<open>n\<close> characters on,
  otherwise it moves on by one. A matcher returns the groups and the length of the
  match; neither pattern of this file matches the empty string.
\<close>

fun findall_from :: "(string \<Rightarrow> ('a \<times> nat) option) \<Rightarrow> nat \<Rightarrow> string \<Rightarrow> 'a list" where
  "findall_from m skip [] = []"
| "findall_from m skip (c # cs) =
     (if 0 < skip then findall_from m (skip - 1) cs
      else case m (c # cs) of
             Some (groups, n) \<Rightarrow> groups # findall_from m (n - 1) cs
           | None \<Rightarrow> findall_from m 0 cs)"

definition findall :: "(string \<Rightarrow> ('a \<times> nat) option) \<Rightarrow> string \<Rightarrow> 'a list" where
  "findall m s = findall_from m 0 s"

text \<open>
  A group \<^verbatim>\<open>(\w+Lemmas)\<close> or \<^verbatim>\<open>(\w+Proofs)\<close> at the head of \<open>s\<close>: the greedy \<^verbatim>\<open>\w+\<close> first
  takes the whole run of word characters and gives characters back one at a time until
  the literal suffix follows, with at least one character left before it. The
  candidates are therefore the prefixes of the run that end in the suffix and are
  longer than it, the longest first; what follows the group in the pattern decides
  which candidate is taken.
\<close>

definition word_suffix_candidates :: "string \<Rightarrow> string \<Rightarrow> string list" where
  "word_suffix_candidates suf s =
     (let w = takeWhile is_word s
      in filter (\<lambda>c. endswith c suf)
           (map (\<lambda>n. take n w) (rev [Suc (length suf) ..< Suc (length w)])))"

text \<open>\<^verbatim>\<open>\b\<close> behind a word character: the text ends, or a non-word character follows.\<close>

definition at_word_boundary :: "string \<Rightarrow> bool" where
  "at_word_boundary rest = (case rest of [] \<Rightarrow> True | c # _ \<Rightarrow> \<not> is_word c)"

text \<open>\<^verbatim>\<open>lemmas_pattern = re.compile(r'module\s+(\w+Lemmas)\b')\<close>, tried at the head of \<open>s\<close>.\<close>

definition match_lemmas_pattern :: "string \<Rightarrow> (string \<times> nat) option" where
  "match_lemmas_pattern s =
     (if startswith s ''module'' then
        (let r = drop 6 s; ws = takeWhile is_space r; r' = dropWhile is_space r in
         if ws = [] then None
         else case filter (\<lambda>c. at_word_boundary (drop (length c) r'))
                     (word_suffix_candidates ''Lemmas'' r') of
                [] \<Rightarrow> None
              | c # _ \<Rightarrow> Some (c, 6 + length ws + length c))
      else None)"

text \<open>
  \<^verbatim>\<open>proofs_pattern = re.compile(r'module\s+(\w+Proofs)\s*:\s*(\w+Lemmas)')\<close>, tried at the
  head of \<open>s\<close>. \<open>match_ascription\<close> is the part \<^verbatim>\<open>\s*:\s*(\w+Lemmas)\<close> behind group 1;
  nothing follows group 2, so its first candidate is taken, whatever comes after it.
\<close>

definition match_ascription :: "string \<Rightarrow> (string \<times> nat) option" where
  "match_ascription s =
     (let sp1 = takeWhile is_space s; s1 = dropWhile is_space s in
      case s1 of
        [] \<Rightarrow> None
      | c # s2 \<Rightarrow>
          if c = CHR '':'' then
            (let sp2 = takeWhile is_space s2; s3 = dropWhile is_space s2 in
             case word_suffix_candidates ''Lemmas'' s3 of
               [] \<Rightarrow> None
             | l # _ \<Rightarrow> Some (l, length sp1 + 1 + length sp2 + length l))
          else None)"

definition match_proofs_pattern :: "string \<Rightarrow> ((string \<times> string) \<times> nat) option" where
  "match_proofs_pattern s =
     (if startswith s ''module'' then
        (let r = drop 6 s; ws = takeWhile is_space r; r' = dropWhile is_space r in
         if ws = [] then None
         else case List.map_filter
                     (\<lambda>p. case match_ascription (drop (length p) r') of
                            Some (l, n) \<Rightarrow> Some ((p, l), 6 + length ws + length p + n)
                          | None \<Rightarrow> None)
                     (word_suffix_candidates ''Proofs'' r') of
                [] \<Rightarrow> None
              | x # _ \<Rightarrow> Some x)
      else None)"

text \<open>
  \<^verbatim>\<open>s.replace(old, new)\<close> for a non-empty \<open>old\<close>: every occurrence of \<open>old\<close>, found from
  the left without overlap, is replaced.
\<close>

fun replace_from :: "string \<Rightarrow> string \<Rightarrow> nat \<Rightarrow> string \<Rightarrow> string" where
  "replace_from old new skip [] = []"
| "replace_from old new skip (c # cs) =
     (if 0 < skip then replace_from old new (skip - 1) cs
      else if startswith (c # cs) old then new @ replace_from old new (length old - 1) cs
      else c # replace_from old new 0 cs)"

definition replace :: "string \<Rightarrow> string \<Rightarrow> string \<Rightarrow> string" where
  "replace s old new = replace_from old new 0 s"

definition pairing_error :: "string \<Rightarrow> string \<Rightarrow> string" where
  "pairing_error file_path lemmas =
     ''Error in '' @ file_path @ '': No corresponding Proofs module for Lemmas module ''
       @ [CHR 0x27] @ lemmas @ [CHR 0x27]"

text \<open>
  \<^verbatim>\<open>proofs_dict = {proof: lemma for proof, lemma in proofs_modules}\<close>: a later pair
  overwrites an earlier one with the same key.
\<close>

definition proofs_dict_of :: "(string \<times> string) list \<Rightarrow> (string \<rightharpoonup> string)" where
  "proofs_dict_of proofs_modules =
     foldl (\<lambda>d (proof, lemma). d(proof \<mapsto> lemma)) Map.empty proofs_modules"

text \<open>The patterns run on the text as read: this check does not call \<open>remove_comments\<close>.\<close>

definition check_proofs_for_lemmas :: "string \<Rightarrow> string \<Rightarrow> string list" where
  "check_proofs_for_lemmas file_path content =
     (let lemmas_modules = findall match_lemmas_pattern content;
          proofs_modules = findall match_proofs_pattern content;
          proofs_dict = proofs_dict_of proofs_modules
      in concat (map (\<lambda>lemmas.
            let corresponding_proofs = replace lemmas ''Lemmas'' ''Proofs'' in
            if proofs_dict corresponding_proofs = None
               \<or> proofs_dict corresponding_proofs \<noteq> Some lemmas
            then [pairing_error file_path lemmas] else []) lemmas_modules))"

section \<open>Properties of the Tree Pruner\<close>

subsection \<open>The removal loop as a filter\<close>

lemma scan_children_find:
  "scan_children kids None = (first_transf kids, None)"
  by (induction kids) (auto simp: first_transf_def)

lemma child_to_keep_find: "child_to_keep kids = first_transf kids"
  by (simp add: child_to_keep_def scan_children_find split: option.splits)

lemma remove_child_filter:
  "distinct (map ident ks) \<Longrightarrow> remove_child child ks = filter (\<lambda>k. ident k \<noteq> ident child) ks"
proof (induction ks)
  case Nil
  show ?case by simp
next
  case (Cons k ks)
  show ?case
  proof (cases "ident k = ident child")
    case True
    with Cons.prems have "ident child \<notin> ident ` set ks" by simp
    then have "\<forall>x \<in> set ks. ident x \<noteq> ident child" by (metis imageI)
    then have "filter (\<lambda>k. ident k \<noteq> ident child) ks = ks" by (simp add: filter_id_conv)
    with True show ?thesis by simp
  next
    case False
    with Cons show ?thesis by simp
  qed
qed

lemma remove_loop_filter:
  "distinct (map ident ks) \<Longrightarrow>
   foldl (\<lambda>ks child. if P child then remove_child child ks else ks) ks xs
     = filter (\<lambda>k. ident k \<notin> ident ` {x \<in> set xs. P x}) ks"
proof (induction xs arbitrary: ks)
  case Nil
  show ?case by simp
next
  case (Cons x xs)
  show ?case
  proof (cases "P x")
    case True
    have d: "distinct (map ident (filter (\<lambda>k. ident k \<noteq> ident x) ks))"
      using Cons.prems by (simp add: distinct_map_filter)
    have "foldl (\<lambda>ks child. if P child then remove_child child ks else ks) ks (x # xs)
        = foldl (\<lambda>ks child. if P child then remove_child child ks else ks)
            (filter (\<lambda>k. ident k \<noteq> ident x) ks) xs"
      using True Cons.prems by (simp add: remove_child_filter)
    also have "\<dots> = filter (\<lambda>k. ident k \<notin> ident ` {x \<in> set xs. P x}) (filter (\<lambda>k. ident k \<noteq> ident x) ks)"
      by (rule Cons.IH [OF d])
    also have "\<dots> = filter (\<lambda>k. ident k \<notin> ident ` {y \<in> set (x # xs). P y}) ks"
      using True by (auto intro!: filter_cong)
    finally show ?thesis .
  next
    case False
    have "{y \<in> set (x # xs). P y} = {y \<in> set xs. P y}" using False by auto
    with False Cons show ?thesis by simp
  qed
qed

lemma remove_others_filter:
  assumes "distinct (map ident kids)"
  shows "remove_others keep kids = filter (retained keep) kids"
proof -
  let ?P = "\<lambda>child. ident child \<noteq> ident keep \<and> tag child \<in> {''proof'', ''transf''}"
  have "remove_others keep kids = filter (\<lambda>k. ident k \<notin> ident ` {x \<in> set kids. ?P x}) kids"
    unfolding remove_others_def by (rule remove_loop_filter [OF assms])
  also have "\<dots> = filter (retained keep) kids"
  proof (rule filter_cong [OF refl])
    fix k assume k: "k \<in> set kids"
    have "ident k \<in> ident ` {x \<in> set kids. ?P x} \<longleftrightarrow> ?P k"
    proof
      assume "ident k \<in> ident ` {x \<in> set kids. ?P x}"
      then obtain x where x: "x \<in> set kids" "?P x" "ident x = ident k" by auto
      from assms x(1) k x(3) have "x = k"
        by (meson distinct_map inj_onD)
      with x show "?P k" by simp
    next
      assume "?P k" with k show "ident k \<in> ident ` {x \<in> set kids. ?P x}" by blast
    qed
    then show "(ident k \<notin> ident ` {x \<in> set kids. ?P x}) = retained keep k"
      by (auto simp: retained_def)
  qed
  finally show ?thesis .
qed

lemma prune_goal_filter:
  "distinct (map ident kids) \<Longrightarrow>
   prune_goal kids = (case first_transf kids of None \<Rightarrow> kids | Some keep \<Rightarrow> filter (retained keep) kids)"
  by (simp add: prune_goal_def child_to_keep_find remove_others_filter split: option.splits)

subsection \<open>The loop over the goals and the one-pass pruner\<close>

lemma prune_sel [simp]:
  "ident (prune n) = ident n" "tag (prune n) = tag n" "attrib (prune n) = attrib n"
  "text_of (prune n) = text_of n" "tail_of (prune n) = tail_of n"
  by (cases n; simp)+

lemma iter_unfold: "iter n = n # concat (map iter (children n))"
  by (cases n) simp

lemma self_in_iter: "n \<in> set (iter n)"
  by (cases n) simp

lemma idents_eq: "idents = (\<lambda>e. map ident (iter e))"
  by (rule ext) (simp add: idents_def)

lemma goal_ids_eq: "goal_ids = (\<lambda>n. map ident (filter (\<lambda>e. tag e = ''goal'') (iter n)))"
  by (rule ext) (simp add: goal_ids_def)

lemma idents_Element:
  "idents (Element j tg att tx tal cs) = j # concat (map idents cs)"
  by (simp add: idents_eq map_concat comp_def)

lemma ident_in_idents: "ident n \<in> set (idents n)"
  by (cases n) (simp add: idents_Element)

lemma goal_ids_Element:
  "goal_ids (Element j tg att tx tal cs)
     = (if tg = ''goal'' then [j] else []) @ concat (map goal_ids cs)"
  by (simp add: goal_ids_eq filter_concat map_concat comp_def)

lemma goal_ids_subset: "set (goal_ids n) \<subseteq> set (idents n)"
  by (auto simp: goal_ids_def idents_def)

lemma distinct_child:
  "distinct (concat (map idents cs)) \<Longrightarrow> c \<in> set cs \<Longrightarrow> distinct (idents c)"
  by (auto simp: distinct_concat_iff)

lemma distinct_child_idents:
  "distinct (concat (map idents cs)) \<Longrightarrow> distinct (map ident cs)"
proof (induction cs)
  case Nil
  show ?case by simp
next
  case (Cons a cs)
  have "ident a \<notin> ident ` set cs"
  proof
    assume "ident a \<in> ident ` set cs"
    then obtain c where c: "c \<in> set cs" "ident c = ident a" by auto
    have "ident a \<in> set (idents a)" by (rule ident_in_idents)
    moreover have "ident a \<in> set (idents c)" using ident_in_idents [of c] c by simp
    ultimately show False using Cons.prems c(1) by auto
  qed
  with Cons show ?case by simp
qed

lemma update_absent: "i \<notin> set (idents t) \<Longrightarrow> update_children i f t = t"
proof (induction t)
  case (Element j tg att tx tal cs)
  then have "i \<noteq> j" and "\<forall>c \<in> set cs. i \<notin> set (idents c)"
    by (auto simp: idents_Element)
  with Element.IH have "map (update_children i f) cs = cs"
    by (intro map_idI) auto
  with \<open>i \<noteq> j\<close> show ?case by simp
qed

lemma foldl_upd_Element:
  "j \<notin> set ids \<Longrightarrow>
   foldl (\<lambda>t i. update_children i f t) (Element j tg att tx tal cs) ids
     = Element j tg att tx tal (map (\<lambda>c. foldl (\<lambda>t i. update_children i f t) c ids) cs)"
proof (induction ids arbitrary: cs)
  case Nil
  show ?case by simp
next
  case (Cons i ids)
  then have "i \<noteq> j" "j \<notin> set ids" by auto
  then show ?case using Cons.IH [of "map (update_children i f) cs"]
    by (simp add: comp_def)
qed

lemma remove_child_subset: "set (remove_child c ks) \<subseteq> set ks"
  by (induction ks) auto

lemma remove_loop_subset:
  "set (foldl (\<lambda>ks child. if P child then remove_child child ks else ks) ks xs) \<subseteq> set ks"
proof (induction xs arbitrary: ks)
  case Nil
  show ?case by simp
next
  case (Cons x xs)
  show ?case using Cons.IH [of "remove_child x ks"] Cons.IH [of ks] remove_child_subset [of x ks]
    by auto
qed

lemma prune_goal_subset: "set (prune_goal kids) \<subseteq> set kids"
  by (auto simp: prune_goal_def remove_others_def split: option.splits
           dest: subsetD [OF remove_loop_subset])

lemma idents_upd_subset: "set (idents (upd t i)) \<subseteq> set (idents t)"
proof (induction t)
  case (Element j tg att tx tal cs)
  show ?case
  proof (cases "i = j")
    case True
    then show ?thesis using prune_goal_subset [of cs]
      by (auto simp: idents_Element)
  next
    case False
    then show ?thesis using Element.IH
      by (auto simp: idents_Element)
  qed
qed

lemma foldl_upd_relevant:
  "set (idents c) \<subseteq> A \<Longrightarrow> foldl upd c ids = foldl upd c (filter (\<lambda>i. i \<in> A) ids)"
proof (induction ids arbitrary: c)
  case Nil
  show ?case by simp
next
  case (Cons i ids)
  show ?case
  proof (cases "i \<in> A")
    case True
    have "set (idents (upd c i)) \<subseteq> A"
      using idents_upd_subset [of i c] Cons.prems by blast
    from Cons.IH [OF this] True show ?thesis by simp
  next
    case False
    with Cons.prems have "i \<notin> set (idents c)" by blast
    then have "upd c i = c" by (rule update_absent)
    with Cons.IH [OF Cons.prems] False show ?thesis by simp
  qed
qed

lemma goal_ids_of_child:
  "distinct (concat (map idents cs)) \<Longrightarrow> c \<in> set cs \<Longrightarrow>
   filter (\<lambda>i. i \<in> set (idents c)) (concat (map goal_ids cs)) = goal_ids c"
proof (induction cs)
  case Nil
  then show ?case by simp
next
  case (Cons a cs)
  have disj: "set (idents a) \<inter> (\<Union>x \<in> set cs. set (idents x)) = {}"
    using Cons.prems(1) by auto
  show ?case
  proof (cases "c = a")
    case True
    have 1: "filter (\<lambda>i. i \<in> set (idents a)) (goal_ids a) = goal_ids a"
      using goal_ids_subset [of a] by (auto simp: filter_id_conv)
    have 2: "filter (\<lambda>i. i \<in> set (idents a)) (concat (map goal_ids cs)) = []"
      using disj goal_ids_subset by (fastforce simp: filter_empty_conv)
    from True 1 2 show ?thesis by simp
  next
    case False
    with Cons.prems have c: "c \<in> set cs" by simp
    have 1: "filter (\<lambda>i. i \<in> set (idents c)) (goal_ids a) = []"
      using disj c goal_ids_subset [of a] by (fastforce simp: filter_empty_conv)
    from Cons.prems(1) have "distinct (concat (map idents cs))" by simp
    from Cons.IH [OF this c] 1 show ?thesis by simp
  qed
qed

lemma first_transf_map_prune:
  "first_transf (map prune cs) = map_option prune (first_transf cs)"
  by (induction cs) (auto simp: first_transf_def)

lemma retained_prune [simp]: "retained (prune k) (prune c) = retained k c"
  by (simp add: retained_def)

lemma prune_goal_map_prune:
  assumes "distinct (map ident cs)"
  shows "prune_goal (map prune cs) = map prune (prune_goal cs)"
proof -
  have d: "distinct (map ident (map prune cs))" using assms by (simp add: comp_def)
  show ?thesis
    by (simp add: prune_goal_filter [OF d] prune_goal_filter [OF assms] first_transf_map_prune
                  filter_map comp_def split: option.splits)
qed

lemma foldl_upd_prune:
  "distinct (idents n) \<Longrightarrow> foldl upd n (goal_ids n) = prune n"
proof (induction n)
  case (Element j tg att tx tal cs)
  let ?rest = "concat (map goal_ids cs)"
  from Element.prems have j: "j \<notin> (\<Union>c \<in> set cs. set (idents c))"
    and d: "distinct (concat (map idents cs))"
    by (auto simp: idents_Element)
  have jrest: "j \<notin> set ?rest" using j goal_ids_subset by fastforce
  have child: "foldl upd c ?rest = prune c" if "c \<in> set cs" for c
  proof -
    have "foldl upd c ?rest = foldl upd c (filter (\<lambda>i. i \<in> set (idents c)) ?rest)"
      by (rule foldl_upd_relevant) simp
    also have "\<dots> = foldl upd c (goal_ids c)"
      by (simp add: goal_ids_of_child [OF d that])
    also have "\<dots> = prune c"
      using Element.IH [OF that] distinct_child [OF d that] by simp
    finally show ?thesis .
  qed
  have any: "foldl upd (Element j tg att tx tal cs0) ?rest = Element j tg att tx tal (map prune cs0)"
    if "set cs0 \<subseteq> set cs" for cs0
    using that child by (simp add: foldl_upd_Element [OF jrest] subset_iff cong: map_cong)
  show ?case
  proof (cases "tg = ''goal''")
    case True
    have "foldl upd (Element j tg att tx tal cs) (goal_ids (Element j tg att tx tal cs))
        = foldl upd (Element j tg att tx tal (prune_goal cs)) ?rest"
      using True by (simp add: goal_ids_Element)
    also have "\<dots> = Element j tg att tx tal (map prune (prune_goal cs))"
      by (rule any) (rule prune_goal_subset)
    also have "\<dots> = prune (Element j tg att tx tal cs)"
      using True by (simp add: prune_goal_map_prune [OF distinct_child_idents [OF d]])
    finally show ?thesis .
  next
    case False
    then show ?thesis using any [of cs] by (simp add: goal_ids_Element)
  qed
qed

theorem clean_proof_tree_prune:
  assumes "distinct (idents root)"
  shows "clean_proof_tree root
       = Element (ident root) (tag root) (attrib root) (text_of root) (tail_of root)
                 (map prune (children root))"
proof (cases root)
  case (Element j tg att tx tal cs)
  let ?rest = "concat (map goal_ids cs)"
  from assms Element have j: "j \<notin> (\<Union>c \<in> set cs. set (idents c))"
    and d: "distinct (concat (map idents cs))"
    by (auto simp: idents_Element)
  have jrest: "j \<notin> set ?rest" using j goal_ids_subset by fastforce
  have ids: "map ident (findall_goal root) = ?rest"
    by (simp add: findall_goal_def Element goal_ids_eq filter_concat map_concat comp_def)
  have "clean_proof_tree root = foldl upd root (map ident (findall_goal root))"
    by (simp add: clean_proof_tree_def foldl_map)
  also have "\<dots> = Element j tg att tx tal (map (\<lambda>c. foldl upd c ?rest) cs)"
    by (simp only: ids) (simp add: Element foldl_upd_Element [OF jrest])
  also have "map (\<lambda>c. foldl upd c ?rest) cs = map prune cs"
  proof (rule map_cong [OF refl])
    fix c assume c: "c \<in> set cs"
    have "foldl upd c ?rest = foldl upd c (filter (\<lambda>i. i \<in> set (idents c)) ?rest)"
      by (rule foldl_upd_relevant) simp
    also have "\<dots> = foldl upd c (goal_ids c)"
      by (simp add: goal_ids_of_child [OF d c])
    also have "\<dots> = prune c"
      by (rule foldl_upd_prune [OF distinct_child [OF d c]])
    finally show "foldl upd c ?rest = prune c" .
  qed
  finally show ?thesis by (simp add: Element)
qed

subsection \<open>Nodes of the returned tree\<close>

lemma prune_goal_surviving:
  "distinct (map ident kids) \<Longrightarrow> prune_goal kids = surviving kids"
  by (simp add: prune_goal_filter surviving_def)

lemma subseq_surviving: "subseq (surviving kids) kids"
  by (simp add: surviving_def split: option.splits)

lemma set_surviving: "set (surviving kids) \<subseteq> set kids"
  by (auto simp: surviving_def split: option.splits)

lemma find_retained:
  "find (\<lambda>c. tag c = ''transf'') kids = Some k \<Longrightarrow>
   find (\<lambda>c. tag c = ''transf'') (filter (retained k) kids) = Some k"
  by (induction kids) (auto simp: retained_def split: if_splits)

lemma surviving_idem: "surviving (surviving kids) = surviving kids"
proof (cases "first_transf kids")
  case None
  then show ?thesis by (simp add: surviving_def)
next
  case (Some k)
  then have "first_transf (filter (retained k) kids) = Some k"
    unfolding first_transf_def by (rule find_retained)
  with Some show ?thesis by (simp add: surviving_def)
qed

lemma other_surviving:
  "filter (\<lambda>c. tag c \<notin> {''proof'', ''transf''}) (surviving kids)
     = filter (\<lambda>c. tag c \<notin> {''proof'', ''transf''}) kids"
  by (auto simp: surviving_def retained_def split: option.splits intro: filter_cong)

lemma prune_Element:
  assumes "distinct (idents (Element j tg att tx tal cs))"
  shows "prune (Element j tg att tx tal cs)
       = Element j tg att tx tal (map prune (if tg = ''goal'' then surviving cs else cs))"
proof -
  from assms have "distinct (concat (map idents cs))" by (simp add: idents_Element)
  then have d: "distinct (map ident cs)" by (rule distinct_child_idents)
  show ?thesis
    by (simp add: prune_goal_map_prune [OF d] prune_goal_surviving [OF d])
qed

lemma children_prune:
  assumes "distinct (idents n)"
  shows "children (prune n)
       = map prune (if tag n = ''goal'' then surviving (children n) else children n)"
  using assms by (cases n) (simp only: prune_Element element.sel)

lemma subseq_distinct: "subseq xs ys \<Longrightarrow> distinct ys \<Longrightarrow> distinct xs"
  using subseqs_distinctD [of xs ys] by simp

lemma subseq_concat_map:
  "subseq xs ys \<Longrightarrow> (\<And>c. c \<in> set ys \<Longrightarrow> subseq (f c) (g c)) \<Longrightarrow>
   subseq (concat (map f xs)) (concat (map g ys))"
proof (induction rule: list_emb.induct)
  case (list_emb_Nil ys)
  show ?case by simp
next
  case (list_emb_Cons xs ys y)
  then have "subseq (concat (map f xs)) (concat (map g ys))" by simp
  then show ?case by (simp add: list_emb_append2)
next
  case (list_emb_Cons2 x y xs ys)
  then have "subseq (concat (map f xs)) (concat (map g ys))" and "subseq (f x) (g y)"
    by simp_all
  then show ?case by (simp add: list_emb_append_mono)
qed

lemma subseq_idents_prune:
  "distinct (idents n) \<Longrightarrow> subseq (idents (prune n)) (idents n)"
proof (induction n)
  case (Element j tg att tx tal cs)
  let ?xs = "if tg = ''goal'' then surviving cs else cs"
  from Element.prems have d: "distinct (concat (map idents cs))" by (simp add: idents_Element)
  have "subseq ?xs cs" by (simp add: subseq_surviving)
  then have "subseq (concat (map (\<lambda>c. idents (prune c)) ?xs)) (concat (map idents cs))"
    by (rule subseq_concat_map) (rule Element.IH, assumption, rule distinct_child [OF d])
  then show ?case
    by (simp add: prune_Element [OF Element.prems] idents_Element comp_def del: prune.simps)
qed

lemma subseq_idents_clean:
  assumes "distinct (idents root)"
  shows "subseq (idents (clean_proof_tree root)) (idents root)"
proof (cases root)
  case (Element j tg att tx tal cs)
  with assms have d: "distinct (concat (map idents cs))" by (simp add: idents_Element)
  have "subseq (concat (map (\<lambda>c. idents (prune c)) cs)) (concat (map idents cs))"
    by (rule subseq_concat_map) (simp, rule subseq_idents_prune, rule distinct_child [OF d])
  then show ?thesis
    using clean_proof_tree_prune [OF assms] by (simp add: Element idents_Element comp_def)
qed

lemma distinct_idents_clean:
  "distinct (idents root) \<Longrightarrow> distinct (idents (clean_proof_tree root))"
  using subseq_distinct subseq_idents_clean by blast

lemma prune_idem: "distinct (idents n) \<Longrightarrow> prune (prune n) = prune n"
proof (induction n)
  case (Element j tg att tx tal cs)
  let ?xs = "if tg = ''goal'' then surviving cs else cs"
  from Element.prems have d: "distinct (concat (map idents cs))" by (simp add: idents_Element)
  have xs: "set ?xs \<subseteq> set cs" using set_surviving by simp
  have dx: "distinct (map ident ?xs)"
    using distinct_child_idents [OF d] subseq_surviving [of cs]
    by (auto intro: subseq_distinct subseq_map)
  have pp: "map prune (map prune ?xs) = map prune ?xs"
    using xs Element.IH distinct_child [OF d] by (auto simp del: prune.simps)
  have dp: "distinct (map ident (map prune ?xs))" using dx by (simp add: comp_def)
  have "prune (Element j tg att tx tal (map prune ?xs))
      = Element j tg att tx tal
          (if tg = ''goal'' then prune_goal (map prune (map prune ?xs))
           else map prune (map prune ?xs))"
    by simp
  also have "\<dots> = Element j tg att tx tal
          (if tg = ''goal'' then prune_goal (map prune ?xs) else map prune ?xs)"
    by (simp only: pp)
  also have "\<dots> = Element j tg att tx tal (map prune ?xs)"
  proof (cases "tg = ''goal''")
    case True
    with dx have ds: "distinct (map ident (surviving cs))" by simp
    show ?thesis using True
      by (simp add: prune_goal_map_prune [OF ds] prune_goal_surviving [OF ds] surviving_idem
               del: prune.simps)
  next
    case False
    then show ?thesis by simp
  qed
  finally show ?case by (simp only: prune_Element [OF Element.prems])
qed

lemma iter_prune_subset: "set (iter (prune n)) \<subseteq> prune ` set (iter n)"
proof (induction n)
  case (Element j tg att tx tal cs)
  let ?ds = "if tg = ''goal'' then prune_goal (map prune cs) else map prune cs"
  have ds: "set ?ds \<subseteq> prune ` set cs" using prune_goal_subset [of "map prune cs"] by auto
  have "x \<in> prune ` set (iter (Element j tg att tx tal cs))"
    if "x \<in> set (iter (prune (Element j tg att tx tal cs)))" for x
  proof -
    from that consider "x = prune (Element j tg att tx tal cs)"
      | d where "d \<in> set ?ds" "x \<in> set (iter d)"
      by (auto split: if_splits)
    then show ?thesis
    proof cases
      case 1
      then show ?thesis by (simp del: prune.simps)
    next
      case 2
      with ds obtain c where c: "c \<in> set cs" "d = prune c" by auto
      with 2 Element.IH [OF c(1)] obtain m where "m \<in> set (iter c)" "x = prune m" by auto
      with c(1) show ?thesis by (auto simp del: prune.simps)
    qed
  qed
  then show ?case by blast
qed

lemma distinct_subnode:
  "distinct (idents n) \<Longrightarrow> g \<in> set (iter n) \<Longrightarrow> distinct (idents g)"
proof (induction n)
  case (Element j tg att tx tal cs)
  from Element.prems(1) have d: "distinct (concat (map idents cs))" by (simp add: idents_Element)
  from Element.prems(2) consider "g = Element j tg att tx tal cs"
    | c where "c \<in> set cs" "g \<in> set (iter c)" by auto
  then show ?case
  proof cases
    case 1
    with Element.prems(1) show ?thesis by simp
  next
    case 2
    with Element.IH [OF 2(1) distinct_child [OF d 2(1)]] show ?thesis by simp
  qed
qed

lemma ident_inj: "distinct (idents n) \<Longrightarrow> inj_on ident (set (iter n))"
  by (simp add: idents_def distinct_map)

lemma result_nodes:
  assumes "distinct (idents root)" and "n' \<in> set (iter (clean_proof_tree root))"
  shows "n' = clean_proof_tree root
       \<or> (\<exists>n \<in> set (concat (map iter (children root))). n' = prune n)"
proof -
  from assms(2) consider "n' = clean_proof_tree root"
    | c where "c \<in> set (children root)" "n' \<in> set (iter (prune c))"
    by (subst (asm) iter_unfold) (auto simp: clean_proof_tree_prune [OF assms(1)])
  then show ?thesis
  proof cases
    case 1
    then show ?thesis by simp
  next
    case 2
    with iter_prune_subset [of c] obtain n where "n \<in> set (iter c)" "n' = prune n" by auto
    with 2(1) show ?thesis by auto
  qed
qed

lemma descendant_in_iter:
  "n \<in> set (concat (map iter (children root))) \<Longrightarrow> n \<in> set (iter root)"
  by (subst iter_unfold) simp

lemma descendant_ident:
  assumes "distinct (idents root)" and "n \<in> set (concat (map iter (children root)))"
  shows "ident n \<noteq> ident root"
proof -
  from assms(2) have "ident n \<in> set (concat (map idents (children root)))"
    by (auto simp: idents_def)
  with assms(1) show ?thesis by (cases root) (auto simp: idents_Element)
qed

lemma pruned_goal:
  assumes wf: "distinct (idents root)"
      and g: "g \<in> set (findall_goal root)"
      and g': "g' \<in> set (iter (clean_proof_tree root))" "ident g' = ident g"
  shows "children g' = map prune (surviving (children g))"
proof -
  from g have desc: "g \<in> set (concat (map iter (children root)))" and goal: "tag g = ''goal''"
    by (simp_all add: findall_goal_def)
  have "g' \<noteq> clean_proof_tree root"
    using descendant_ident [OF wf desc] g'(2) by (auto simp: clean_proof_tree_prune [OF wf])
  with result_nodes [OF wf g'(1)] obtain n
    where n: "n \<in> set (concat (map iter (children root)))" "g' = prune n" by auto
  have "n = g"
    using ident_inj [OF wf] descendant_in_iter [OF n(1)] descendant_in_iter [OF desc] g'(2) n(2)
    by (auto dest: inj_onD)
  with n(2) goal children_prune [OF distinct_subnode [OF wf descendant_in_iter [OF desc]]]
  show ?thesis by simp
qed

subsection \<open>The claims about the pruner\<close>

text \<open>
  Claim C1 (counterexample). A goal whose only child is one proof, below the session root:
  the pruner returns the tree unchanged, the goal keeps its proof child.
\<close>

theorem clean_proof_tree_leaves_proof_only_goal:
  "find (\<lambda>c. tag c = ''transf'')
        (children (Element 1 ''goal'' [(''name'', ''G'')] None None
                     [Element 2 ''proof'' [(''prover'', ''0'')] None None []])) = None
   \<and> clean_proof_tree
        (Element 0 ''why3session'' [] None None
           [Element 1 ''goal'' [(''name'', ''G'')] None None
              [Element 2 ''proof'' [(''prover'', ''0'')] None None []]])
     = Element 0 ''why3session'' [] None None
           [Element 1 ''goal'' [(''name'', ''G'')] None None
              [Element 2 ''proof'' [(''prover'', ''0'')] None None []]]"
  by code_simp

text \<open>
  Claim C1 (amended). For a goal below the root with no child tagged transf, the pruner does
  not remove all its proof children: when the goal had a proof child, the goal of the
  returned tree still has a child tagged proof, and it has no child tagged transf.
\<close>

theorem clean_proof_tree_keeps_a_proof_without_transf:
  assumes "distinct (idents root)"
      and "g \<in> set (findall_goal root)"
      and "find (\<lambda>c. tag c = ''transf'') (children g) = None"
      and "p \<in> set (children g)" and "tag p = ''proof''"
      and "g' \<in> set (iter (clean_proof_tree root))" and "ident g' = ident g"
  shows "(\<exists>p' \<in> set (children g'). tag p' = ''proof'')
       \<and> find (\<lambda>c. tag c = ''transf'') (children g') = None"
proof -
  have c: "children g' = map prune (children g)"
    using pruned_goal [OF assms(1,2,6,7)] assms(3) by (simp add: surviving_def first_transf_def)
  have "prune p \<in> set (children g')" using assms(4) c by simp
  moreover have "tag (prune p) = ''proof''" using assms(5) by simp
  moreover have "find (\<lambda>c. tag c = ''transf'') (children g') = None"
    using assms(3) by (simp add: c find_None_iff)
  ultimately show ?thesis by blast
qed

theorem clean_proof_tree_keeps_a_proof_without_transf_witness:
  "(\<exists>p' \<in> set (children (Element 2 ''goal'' [] None None
                      [Element 3 ''label'' [] None None [],
                       Element 4 ''proof'' [(''prover'', ''1'')] None None
                         [Element 5 ''result'' [(''steps'', ''7'')] None None []]])).
        tag p' = ''proof'')
   \<and> find (\<lambda>c. tag c = ''transf'')
        (children (Element 2 ''goal'' [] None None
                      [Element 3 ''label'' [] None None [],
                       Element 4 ''proof'' [(''prover'', ''1'')] None None
                         [Element 5 ''result'' [(''steps'', ''7'')] None None []]])) = None"
  by (rule clean_proof_tree_keeps_a_proof_without_transf
        [where root = "Element 0 ''why3session'' [] None None
                         [Element 1 ''theory'' [] None None
                            [Element 2 ''goal'' [] None None
                               [Element 3 ''label'' [] None None [],
                                Element 4 ''proof'' [(''prover'', ''1'')] None None
                                  [Element 5 ''result'' [(''steps'', ''7'')] None None []]]]]"
           and g = "Element 2 ''goal'' [] None None
                      [Element 3 ''label'' [] None None [],
                       Element 4 ''proof'' [(''prover'', ''1'')] None None
                         [Element 5 ''result'' [(''steps'', ''7'')] None None []]]"
           and p = "Element 4 ''proof'' [(''prover'', ''1'')] None None
                         [Element 5 ''result'' [(''steps'', ''7'')] None None []]"])
     code_simp+

text \<open>
  Claim C2. For a goal below the root that has a child tagged transf, with \<open>k\<close> the first
  such child in document order: the children of that goal in the returned tree are, in
  order, \<open>k\<close> and the children tagged neither proof nor transf; every other child tagged
  proof or transf is removed.
\<close>

theorem clean_proof_tree_keeps_first_transf:
  assumes "distinct (idents root)"
      and "g \<in> set (findall_goal root)"
      and "find (\<lambda>c. tag c = ''transf'') (children g) = Some k"
      and "g' \<in> set (iter (clean_proof_tree root))" and "ident g' = ident g"
  shows "map (\<lambda>c. (ident c, tag c)) (children g')
       = map (\<lambda>c. (ident c, tag c))
           (filter (\<lambda>c. ident c = ident k \<or> tag c \<notin> {''proof'', ''transf''}) (children g))"
proof -
  have "children g' = map prune (filter (retained k) (children g))"
    using pruned_goal [OF assms(1,2,4,5)] assms(3) by (simp add: surviving_def first_transf_def)
  moreover have "retained k = (\<lambda>c. ident c = ident k \<or> tag c \<notin> {''proof'', ''transf''})"
    by (rule ext) (simp add: retained_def)
  ultimately show ?thesis by (simp add: comp_def)
qed

theorem clean_proof_tree_keeps_first_transf_witness:
  "map (\<lambda>c. (ident c, tag c))
     (children (Element 1 ''goal'' [] None None
                  [Element 3 ''transf'' [] None None
                     [Element 4 ''goal'' [] None None [Element 5 ''transf'' [] None None []]],
                   Element 8 ''label'' [] None None []]))
   = map (\<lambda>c. (ident c, tag c))
       (filter (\<lambda>c. ident c = ident (Element 3 ''transf'' [] None None
                     [Element 4 ''goal'' [] None None
                        [Element 5 ''transf'' [] None None [],
                         Element 6 ''proof'' [] None None [],
                         Element 7 ''transf'' [] None None []]])
                   \<or> tag c \<notin> {''proof'', ''transf''})
          (children (Element 1 ''goal'' [] None None
                  [Element 2 ''proof'' [] None None [],
                   Element 3 ''transf'' [] None None
                     [Element 4 ''goal'' [] None None
                        [Element 5 ''transf'' [] None None [],
                         Element 6 ''proof'' [] None None [],
                         Element 7 ''transf'' [] None None []]],
                   Element 8 ''label'' [] None None [],
                   Element 9 ''transf'' [] None None [],
                   Element 10 ''proof'' [] None None []])))"
  by (rule clean_proof_tree_keeps_first_transf
        [where root = "Element 0 ''why3session'' [] None None
               [Element 1 ''goal'' [] None None
                  [Element 2 ''proof'' [] None None [],
                   Element 3 ''transf'' [] None None
                     [Element 4 ''goal'' [] None None
                        [Element 5 ''transf'' [] None None [],
                         Element 6 ''proof'' [] None None [],
                         Element 7 ''transf'' [] None None []]],
                   Element 8 ''label'' [] None None [],
                   Element 9 ''transf'' [] None None [],
                   Element 10 ''proof'' [] None None []]]"])
     code_simp+

text \<open>
  Claim C3 (failing input). A goal with two proof children and no transf child keeps both
  proof children.
\<close>

theorem clean_proof_tree_keeps_two_proofs:
  "map (\<lambda>g. map tag (children g))
     (findall_goal (clean_proof_tree
        (Element 0 ''why3session'' [] None None
           [Element 1 ''goal'' [] None None
              [Element 2 ''proof'' [(''prover'', ''0'')] None None [],
               Element 3 ''proof'' [(''prover'', ''1'')] None None []]])))
   = [[''proof'', ''proof'']]"
  by code_simp

text \<open>
  Claim C4. On a tree whose nodes are pairwise distinct objects, pruning twice gives the
  tree that pruning once gives.
\<close>

theorem clean_proof_tree_idempotent:
  assumes "distinct (idents root)"
  shows "clean_proof_tree (clean_proof_tree root) = clean_proof_tree root"
proof -
  have d: "distinct (idents (clean_proof_tree root))"
    using assms by (rule distinct_idents_clean)
  from assms have dc: "distinct (concat (map idents (children root)))"
    by (cases root) (simp add: idents_Element)
  have "map prune (map prune (children root)) = map prune (children root)"
    using prune_idem distinct_child [OF dc] by (simp del: prune.simps)
  then show ?thesis
    using clean_proof_tree_prune [OF d] by (simp add: clean_proof_tree_prune [OF assms])
qed

theorem clean_proof_tree_idempotent_witness:
  "clean_proof_tree (clean_proof_tree
      (Element 0 ''why3session'' [] None None
         [Element 1 ''goal'' [] None None
            [Element 2 ''proof'' [] None None [],
             Element 3 ''transf'' [] None None
               [Element 4 ''goal'' [] None None
                  [Element 5 ''proof'' [] None None [],
                   Element 6 ''proof'' [] None None []]],
             Element 7 ''transf'' [] None None []]]))
   = clean_proof_tree
      (Element 0 ''why3session'' [] None None
         [Element 1 ''goal'' [] None None
            [Element 2 ''proof'' [] None None [],
             Element 3 ''transf'' [] None None
               [Element 4 ''goal'' [] None None
                  [Element 5 ''proof'' [] None None [],
                   Element 6 ''proof'' [] None None []]],
             Element 7 ''transf'' [] None None []]])"
  by (rule clean_proof_tree_idempotent) code_simp

text \<open>
  Claim C5. Every node of the returned tree is a node of the input tree with the same
  identity, tag, attributes, text and tail; its children are, in the same relative order,
  children of that input node, and its children tagged neither proof nor transf are exactly
  those of the input node.
\<close>

theorem clean_proof_tree_frame:
  assumes "distinct (idents root)" and "n' \<in> set (iter (clean_proof_tree root))"
  shows "\<exists>n \<in> set (iter root).
           ident n' = ident n \<and> tag n' = tag n \<and> attrib n' = attrib n
         \<and> text_of n' = text_of n \<and> tail_of n' = tail_of n
         \<and> subseq (map (\<lambda>c. (ident c, tag c, attrib c)) (children n'))
                  (map (\<lambda>c. (ident c, tag c, attrib c)) (children n))
         \<and> map ident (filter (\<lambda>c. tag c \<notin> {''proof'', ''transf''}) (children n'))
             = map ident (filter (\<lambda>c. tag c \<notin> {''proof'', ''transf''}) (children n))"
proof -
  let ?f = "\<lambda>c. (ident c, tag c, attrib c)"
  let ?other = "\<lambda>c. tag c \<notin> {''proof'', ''transf''}"
  from result_nodes [OF assms] show ?thesis
  proof
    assume n': "n' = clean_proof_tree root"
    have s: "ident n' = ident root" "tag n' = tag root" "attrib n' = attrib root"
        "text_of n' = text_of root" "tail_of n' = tail_of root"
      by (simp_all add: n' clean_proof_tree_prune [OF assms(1)])
    have c: "children n' = map prune (children root)"
      by (simp add: n' clean_proof_tree_prune [OF assms(1)])
    have 1: "subseq (map ?f (children n')) (map ?f (children root))"
      by (simp add: c comp_def)
    have 2: "map ident (filter ?other (children n'))
           = map ident (filter ?other (children root))"
      by (simp add: c comp_def filter_map)
    show ?thesis using s 1 2 self_in_iter [of root] by blast
  next
    assume "\<exists>n \<in> set (concat (map iter (children root))). n' = prune n"
    then obtain n where n: "n \<in> set (concat (map iter (children root)))" "n' = prune n"
      by blast
    have mem: "n \<in> set (iter root)" using n(1) by (rule descendant_in_iter)
    let ?xs = "if tag n = ''goal'' then surviving (children n) else children n"
    have c: "children n' = map prune ?xs"
      unfolding n(2) by (rule children_prune [OF distinct_subnode [OF assms(1) mem]])
    have "subseq ?xs (children n)" by (simp add: subseq_surviving)
    then have "subseq (map ?f ?xs) (map ?f (children n))" by (rule subseq_map)
    then have 1: "subseq (map ?f (children n')) (map ?f (children n))"
      by (simp add: c comp_def)
    have "filter ?other ?xs = filter ?other (children n)" using other_surviving [of "children n"] by simp
    then have 2: "map ident (filter ?other (children n'))
                = map ident (filter ?other (children n))"
      by (simp add: c comp_def filter_map)
    have s: "ident n' = ident n" "tag n' = tag n" "attrib n' = attrib n"
        "text_of n' = text_of n" "tail_of n' = tail_of n"
      by (simp_all add: n(2))
    show ?thesis using s 1 2 mem by blast
  qed
qed

theorem clean_proof_tree_frame_witness:
  "\<exists>n \<in> set (iter (Element 0 ''why3session'' [(''shape_version'', ''6'')] None None
               [Element 1 ''goal'' [(''name'', ''G'')] (Some ''t'') None
                  [Element 2 ''proof'' [(''prover'', ''0'')] None None [],
                   Element 3 ''label'' [(''name'', ''l'')] None (Some ''x'') [],
                   Element 4 ''transf'' [(''name'', ''split'')] None None [],
                   Element 5 ''transf'' [(''name'', ''inline'')] None None []]])).
     ident (Element 1 ''goal'' [(''name'', ''G'')] (Some ''t'') None
              [Element 3 ''label'' [(''name'', ''l'')] None (Some ''x'') [],
               Element 4 ''transf'' [(''name'', ''split'')] None None []]) = ident n
   \<and> tag (Element 1 ''goal'' [(''name'', ''G'')] (Some ''t'') None
              [Element 3 ''label'' [(''name'', ''l'')] None (Some ''x'') [],
               Element 4 ''transf'' [(''name'', ''split'')] None None []]) = tag n
   \<and> attrib (Element 1 ''goal'' [(''name'', ''G'')] (Some ''t'') None
              [Element 3 ''label'' [(''name'', ''l'')] None (Some ''x'') [],
               Element 4 ''transf'' [(''name'', ''split'')] None None []]) = attrib n
   \<and> text_of (Element 1 ''goal'' [(''name'', ''G'')] (Some ''t'') None
              [Element 3 ''label'' [(''name'', ''l'')] None (Some ''x'') [],
               Element 4 ''transf'' [(''name'', ''split'')] None None []]) = text_of n
   \<and> tail_of (Element 1 ''goal'' [(''name'', ''G'')] (Some ''t'') None
              [Element 3 ''label'' [(''name'', ''l'')] None (Some ''x'') [],
               Element 4 ''transf'' [(''name'', ''split'')] None None []]) = tail_of n
   \<and> subseq (map (\<lambda>c. (ident c, tag c, attrib c))
               (children (Element 1 ''goal'' [(''name'', ''G'')] (Some ''t'') None
                  [Element 3 ''label'' [(''name'', ''l'')] None (Some ''x'') [],
                   Element 4 ''transf'' [(''name'', ''split'')] None None []])))
            (map (\<lambda>c. (ident c, tag c, attrib c)) (children n))
   \<and> map ident (filter (\<lambda>c. tag c \<notin> {''proof'', ''transf''})
               (children (Element 1 ''goal'' [(''name'', ''G'')] (Some ''t'') None
                  [Element 3 ''label'' [(''name'', ''l'')] None (Some ''x'') [],
                   Element 4 ''transf'' [(''name'', ''split'')] None None []])))
     = map ident (filter (\<lambda>c. tag c \<notin> {''proof'', ''transf''}) (children n))"
  by (rule clean_proof_tree_frame) code_simp+

section \<open>Properties of the Coverage Auditor\<close>

lemma extract_session_loop_names:
  assumes "\<forall>elem \<in> set elems. tag elem = ''path'' \<longrightarrow> map_of (attrib elem) ''name'' \<noteq> None"
  shows "extract_session_loop elems acc
       = Inr (acc \<union> set (filter (\<lambda>name. endswith name ''.mlw'')
                (List.map_filter
                   (\<lambda>elem. if tag elem = ''path'' then map_of (attrib elem) ''name'' else None)
                   elems)))"
  using assms
proof (induction elems arbitrary: acc)
  case Nil
  show ?case by (simp add:)
next
  case (Cons elem rest)
  then have rest: "\<forall>e \<in> set rest. tag e = ''path'' \<longrightarrow> map_of (attrib e) ''name'' \<noteq> None"
    by simp
  show ?case
  proof (cases "tag elem = ''path''")
    case True
    with Cons.prems obtain name where name: "map_of (attrib elem) ''name'' = Some name"
      by auto
    show ?thesis using True name by (auto simp: Cons.IH [OF rest])
  next
    case False
    then show ?thesis by (auto simp: Cons.IH [OF rest])
  qed
qed

lemma extract_session_loop_KeyError:
  assumes "elem \<in> set elems" and "tag elem = ''path''" and "map_of (attrib elem) ''name'' = None"
  shows "extract_session_loop elems acc = Inl (KeyError ''name'')"
  using assms by (induction elems arbitrary: acc) (auto split: option.splits)

lemma extract_mlw_filenames_from_session_names:
  assumes "\<forall>elem \<in> set (iter root). tag elem = ''path'' \<longrightarrow> map_of (attrib elem) ''name'' \<noteq> None"
  shows "extract_mlw_filenames_from_session root = Inr (session_mlw_names root)"
  by (simp add: extract_mlw_filenames_from_session_def session_mlw_names_def
                extract_session_loop_names [OF assms])

lemma extract_directory_loop:
  "foldl (\<lambda>mlw_filenames file_name.
            if endswith file_name ''.mlw'' then insert file_name mlw_filenames
            else mlw_filenames) acc listing
     = acc \<union> set (filter (\<lambda>file_name. endswith file_name ''.mlw'') listing)"
  by (induction listing arbitrary: acc) auto

lemma extract_mlw_filenames_from_directory_names:
  "extract_mlw_filenames_from_directory listing = directory_mlw_names listing"
  by (simp add: extract_mlw_filenames_from_directory_def directory_mlw_names_def
                extract_directory_loop)

text \<open>
  Claim C6. When every \<^verbatim>\<open>path\<close> element of the session carries a \<^verbatim>\<open>name\<close>, the check
  returns normally, printing the two PASSED lines, if and only if the .mlw path names of
  the session are exactly the .mlw file names of the directory without
  \<^verbatim>\<open>twoHonestParties.mlw\<close>. Otherwise it prints the FAILED line, then the files of the
  session missing in the directory under their heading, then the files of the directory
  missing in the session under theirs, a heading and its files only when there are some,
  and one of the two sets is not empty; it ends the process with exit status 1.
\<close>

theorem check_whyml_files_proven_outcome:
  assumes "\<forall>elem \<in> set (iter root). tag elem = ''path'' \<longrightarrow> map_of (attrib elem) ''name'' \<noteq> None"
  shows "(let S = session_mlw_names root;
              D = directory_mlw_names listing - {''twoHonestParties.mlw''}
          in check_whyml_files_proven root listing
               = Inr (if S = D then
                        ([Line ''Proof availability check PASSED:'',
                          Line ''Apart from twoHonestParties.mlw, all *.mlw files in the directory have a proof in the proof tree and vice versa.''],
                         Returned)
                      else
                        ([Line ''Proof availability check FAILED:'']
                         @ (if S - D = {} then []
                            else [Line ''*.mlw files in proof tree but not in directory:'',
                                  Files (S - D)])
                         @ (if D - S = {} then []
                            else [Line ''*.mlw files in directory but not in proof tree:'',
                                  Files (D - S)]),
                         Exited 1))
             \<and> (S \<noteq> D \<longrightarrow> S - D \<noteq> {} \<or> D - S \<noteq> {}))"
proof -
  have "S \<noteq> D \<longrightarrow> S - D \<noteq> {} \<or> D - S \<noteq> {}" for S D :: "string set"
    by blast
  then show ?thesis
    by (simp add: check_whyml_files_proven_def Let_def
                  extract_mlw_filenames_from_session_names [OF assms]
                  extract_mlw_filenames_from_directory_names)
qed

theorem check_whyml_files_proven_outcome_witness:
  "check_whyml_files_proven
     (Element 0 ''why3session'' [(''shape_version'', ''6'')] None None
        [Element 1 ''file'' [(''format'', ''whyml'')] None None
           [Element 2 ''path'' [(''name'', ''..'')] None None [],
            Element 3 ''path'' [(''name'', ''A.mlw'')] None None [],
            Element 4 ''theory'' [(''name'', ''T'')] None None []],
         Element 5 ''file'' [(''format'', ''whyml'')] None None
           [Element 6 ''path'' [(''name'', ''B.mlw'')] None None []]])
     [''A.mlw'', ''why3session.xml'', ''twoHonestParties.mlw'', ''B.mlw'']
   = Inr ([Line ''Proof availability check PASSED:'',
           Line ''Apart from twoHonestParties.mlw, all *.mlw files in the directory have a proof in the proof tree and vice versa.''],
          Returned)
   \<and> check_whyml_files_proven
     (Element 0 ''why3session'' [] None None
        [Element 1 ''file'' [] None None
           [Element 2 ''path'' [(''name'', ''A.mlw'')] None None []]])
     [''A.mlw'', ''C.mlw'']
   = Inr ([Line ''Proof availability check FAILED:'',
           Line ''*.mlw files in directory but not in proof tree:'',
           Files {''C.mlw''}],
          Exited 1)"
proof -
  let ?T1 = "Element 0 ''why3session'' [(''shape_version'', ''6'')] None None
        [Element 1 ''file'' [(''format'', ''whyml'')] None None
           [Element 2 ''path'' [(''name'', ''..'')] None None [],
            Element 3 ''path'' [(''name'', ''A.mlw'')] None None [],
            Element 4 ''theory'' [(''name'', ''T'')] None None []],
         Element 5 ''file'' [(''format'', ''whyml'')] None None
           [Element 6 ''path'' [(''name'', ''B.mlw'')] None None []]]"
  let ?L1 = "[''A.mlw'', ''why3session.xml'', ''twoHonestParties.mlw'', ''B.mlw'']"
  let ?T2 = "Element 0 ''why3session'' [] None None
        [Element 1 ''file'' [] None None
           [Element 2 ''path'' [(''name'', ''A.mlw'')] None None []]]"
  let ?L2 = "[''A.mlw'', ''C.mlw'']"
  have h1: "\<forall>elem \<in> set (iter ?T1). tag elem = ''path'' \<longrightarrow> map_of (attrib elem) ''name'' \<noteq> None"
    by code_simp
  have h2: "\<forall>elem \<in> set (iter ?T2). tag elem = ''path'' \<longrightarrow> map_of (attrib elem) ''name'' \<noteq> None"
    by code_simp
  have e1: "session_mlw_names ?T1 = directory_mlw_names ?L1 - {''twoHonestParties.mlw''}"
    by code_simp
  have e2: "session_mlw_names ?T2 \<noteq> directory_mlw_names ?L2 - {''twoHonestParties.mlw''}"
      "session_mlw_names ?T2 - (directory_mlw_names ?L2 - {''twoHonestParties.mlw''}) = {}"
      "directory_mlw_names ?L2 - {''twoHonestParties.mlw''} - session_mlw_names ?T2 = {''C.mlw''}"
    by code_simp+
  have e3: "{''C.mlw''} \<noteq> ({} :: string set)" by simp
  show ?thesis
    using check_whyml_files_proven_outcome [OF h1, of ?L1]
          check_whyml_files_proven_outcome [OF h2, of ?L2]
    by (simp only: Let_def e1 e2 e3 if_True if_False simp_thms append.simps)
qed

section \<open>Properties of the Separation Auditor\<close>

subsection \<open>The line scan of Check A\<close>

lemma match_module_nonempty: "match_module l = Some m \<Longrightarrow> m \<noteq> []"
  by (auto simp: match_module_def Let_def split: if_splits)

lemma last_module_snoc:
  "last_module (ls @ [l]) = (case match_module l of Some m \<Rightarrow> Some m | None \<Rightarrow> last_module ls)"
  by (cases "match_module l") (simp_all add: last_module_def)

lemma last_module_nonempty: "last_module ls = Some m \<Longrightarrow> m \<noteq> []"
proof (induction ls rule: rev_induct)
  case Nil
  then show ?case by (simp add: last_module_def)
next
  case (snoc l ls)
  then show ?case
    by (cases "match_module l") (auto simp: last_module_snoc dest: match_module_nonempty)
qed

lemma last_module_None: "(\<forall>l \<in> set ls. match_module l = None) \<Longrightarrow> last_module ls = None"
  by (simp add: last_module_def filter_empty_conv)

lemma scan_lines_snoc: "scan_lines fp (ls @ [l]) = scan_line fp (scan_lines fp ls) l"
  by (simp add: scan_lines_def)

lemma current_module_scan_lines: "current_module (scan_lines fp ls) = last_module ls"
proof (induction ls rule: rev_induct)
  case Nil
  show ?case by (simp add: scan_lines_def last_module_def)
next
  case (snoc l ls)
  then show ?case
    by (simp add: scan_lines_snoc last_module_snoc scan_line_def Let_def split: option.splits)
qed

lemma line_errors_snoc: "k < length ls \<Longrightarrow> line_errors fp (ls @ [l]) k = line_errors fp ls k"
  by (simp add: line_errors_def current_module_at_def nth_append split: option.splits)

lemma errors_scan_line:
  "errors (scan_line fp st l) = errors st @
     (case (case match_module l of Some m \<Rightarrow> Some m | None \<Rightarrow> current_module st) of
        Some m \<Rightarrow>
          if mentions_lemma_or_axiom l \<and> m \<noteq> [] \<and> \<not> endswith m ''Lemmas'' \<and> \<not> endswith m ''Spec''
          then [placement_error fp m] else []
      | None \<Rightarrow> [])"
  by (auto simp: scan_line_def Let_def split: option.splits)

lemma errors_scan_lines:
  "errors (scan_lines fp ls) = concat (map (line_errors fp ls) [0..<length ls])"
proof (induction ls rule: rev_induct)
  case Nil
  show ?case by (simp add: scan_lines_def)
next
  case (snoc l ls)
  have old: "map (line_errors fp (ls @ [l])) [0..<length ls] = map (line_errors fp ls) [0..<length ls]"
    by (rule map_cong) (simp_all add: line_errors_snoc)
  have new: "line_errors fp (ls @ [l]) (length ls) =
     (case (case match_module l of Some m \<Rightarrow> Some m | None \<Rightarrow> last_module ls) of
        Some m \<Rightarrow>
          if mentions_lemma_or_axiom l \<and> \<not> endswith m ''Lemmas'' \<and> \<not> endswith m ''Spec''
          then [placement_error fp m] else []
      | None \<Rightarrow> [])"
    by (simp add: line_errors_def current_module_at_def last_module_snoc split: option.splits)
  show ?case
    by (auto simp: scan_lines_snoc errors_scan_line current_module_scan_lines snoc.IH old new
             split: option.splits dest: match_module_nonempty last_module_nonempty)
qed

lemmas auditor_eval =
  match_comment_def splitlines_def is_linebreak_def match_module_def startswith_def
  endswith_def mentions_lemma_or_axiom_def is_space_def is_word_def

text \<open>
  Claim C7 (Separation Check A). The file is stripped of comments and scanned line by
  line; the current module is the name in the last line so far (the line itself
  included) that matches a module declaration at its start. The errors returned are,
  in line order, one error for every line that mentions \<^verbatim>\<open>val lemma\<close> or \<^verbatim>\<open>axiom\<close>
  while the current module's name ends in neither \<^verbatim>\<open>Lemmas\<close> nor \<^verbatim>\<open>Spec\<close>, and no
  other error: such a line is in error if and only if the name has neither ending.
  (Lines before any module declaration have no current module; see C10.)
\<close>

theorem check_lemma_axiom_in_lemmas_per_line:
  "check_lemma_axiom_in_lemmas fp content =
     concat (map (line_errors fp (splitlines (remove_comments content)))
                 [0..<length (splitlines (remove_comments content))])"
  by (simp add: check_lemma_axiom_in_lemmas_def errors_scan_lines)

theorem check_lemma_axiom_in_lemmas_per_line_witness:
  "check_lemma_axiom_in_lemmas ''f.mlw''
     ''module Foo\<newline>axiom a\<newline>module FooLemmas\<newline>axiom b\<newline>module BarSpec\<newline>val lemma c'' =
     [placement_error ''f.mlw'' ''Foo'']"
  using check_lemma_axiom_in_lemmas_per_line [of "''f.mlw''"
     "''module Foo\<newline>axiom a\<newline>module FooLemmas\<newline>axiom b\<newline>module BarSpec\<newline>val lemma c''"]
  by (simp add: auditor_eval line_errors_def current_module_at_def last_module_def upt_rec)

text \<open>
  Claim C10. When every line that mentions \<^verbatim>\<open>val lemma\<close> or \<^verbatim>\<open>axiom\<close> stands strictly
  before the first line matching a module declaration (no line up to and including it
  matches one), Check A returns the empty error list.
\<close>

theorem check_lemma_axiom_in_lemmas_before_first_module:
  assumes lines: "lines = splitlines (remove_comments content)"
    and before: "\<forall>k < length lines. mentions_lemma_or_axiom (lines ! k) \<longrightarrow>
                   (\<forall>j \<le> k. match_module (lines ! j) = None)"
  shows "check_lemma_axiom_in_lemmas fp content = []"
proof -
  have "line_errors fp lines k = []" if k: "k < length lines" for k
  proof (cases "mentions_lemma_or_axiom (lines ! k)")
    case True
    with before k have none: "\<forall>j \<le> k. match_module (lines ! j) = None" by blast
    have "\<forall>l \<in> set (take (Suc k) lines). match_module l = None"
    proof
      fix l assume "l \<in> set (take (Suc k) lines)"
      then obtain j where "j < length (take (Suc k) lines)" "take (Suc k) lines ! j = l"
        by (auto simp: in_set_conv_nth)
      with none show "match_module l = None" by auto
    qed
    then show ?thesis
      by (simp add: line_errors_def current_module_at_def last_module_None)
  next
    case False
    then show ?thesis by (simp add: line_errors_def split: option.splits)
  qed
  then have "concat (map (line_errors fp lines) [0..<length lines]) = []"
    by simp
  then show ?thesis
    by (simp add: check_lemma_axiom_in_lemmas_def errors_scan_lines lines)
qed

theorem check_lemma_axiom_in_lemmas_before_first_module_witness:
  "check_lemma_axiom_in_lemmas ''f.mlw''
     ''axiom a\<newline>val lemma b\<newline>module Foo\<newline>let x = 1'' = []"
proof -
  have l: "splitlines (remove_comments ''axiom a\<newline>val lemma b\<newline>module Foo\<newline>let x = 1'') =
         [''axiom a'', ''val lemma b'', ''module Foo'', ''let x = 1'']"
    by (simp add: auditor_eval)
  have m: "mentions_lemma_or_axiom ''axiom a''" "mentions_lemma_or_axiom ''val lemma b''"
      "\<not> mentions_lemma_or_axiom ''module Foo''" "\<not> mentions_lemma_or_axiom ''let x = 1''"
      "match_module ''axiom a'' = None" "match_module ''val lemma b'' = None"
    by (simp_all add: auditor_eval)
  show ?thesis
    by (rule check_lemma_axiom_in_lemmas_before_first_module [OF l [symmetric]])
       (auto simp: m less_Suc_eq le_Suc_eq)
qed

text \<open>
  Beyond ASCII the scan follows Python's classes: \<^verbatim>\<open>\x85\<close> ends a line, so the
  \<^verbatim>\<open>axiom\<close> behind it stands in \<^verbatim>\<open>BarLemmas\<close>; \<^verbatim>\<open>\xa0\<close> is white space, so
  \<^verbatim>\<open>module\xa0Foo\<close> declares the module \<^verbatim>\<open>Foo\<close>; \<^verbatim>\<open>\xe9\<close> is a word character
  and belongs to the module name.
\<close>

lemma check_lemma_axiom_in_lemmas_latin1:
  "check_lemma_axiom_in_lemmas ''f.mlw''
     (''module Foo'' @ [CHR 0x85] @ ''module BarLemmas axiom a'') = []"
  "check_lemma_axiom_in_lemmas ''f.mlw''
     (''module'' @ [CHR 0xA0] @ ''Foo\<newline>axiom a'') = [placement_error ''f.mlw'' ''Foo'']"
  "check_lemma_axiom_in_lemmas ''f.mlw''
     (''module Caf'' @ [CHR 0xE9] @ ''Lemmas\<newline>axiom a'') = []"
  by code_simp+

subsection \<open>Comment stripping\<close>

lemma find_close_comment:
  "\<not> py_in ''*)'' body \<Longrightarrow> find_close (body @ ''*)'' @ post) = Some post"
  by (induction body rule: find_close.induct) (auto simp: startswith_def)

lemma match_comment_open:
  "\<not> py_in ''*)'' body \<Longrightarrow> match_comment (''(*'' @ body @ ''*)'' @ post) = Some post"
  using find_close_comment [of body post] by (simp add: match_comment_def)

lemma match_comment_before:
  "\<not> startswith (p # ps) ''(*'' \<Longrightarrow> match_comment (p # ps @ ''(*'' @ rest) = None"
  by (cases ps) (auto simp: match_comment_def startswith_def)

lemma remove_comments_first_comment:
  assumes "\<not> py_in ''(*'' pre" and "\<not> py_in ''*)'' body"
  shows "remove_comments (pre @ ''(*'' @ body @ ''*)'' @ post) = pre @ remove_comments post"
  using assms(1)
proof (induction pre)
  case Nil
  show ?case using match_comment_open [OF assms(2), of post] by simp
next
  case (Cons p ps)
  then have "match_comment (p # ps @ ''(*'' @ body @ ''*)'' @ post) = None"
    by (intro match_comment_before) simp
  with Cons show ?case by simp
qed

text \<open>
  Claim C9, as stated, fails twice. The comment pattern is lazy, not greedy: of two
  comments on either side of a declaration only the comments go, where a greedy match
  would take the declaration with them. And only Check A strips comments: Check B
  matches its patterns on the raw text, so a module named inside a comment is reported.
\<close>

theorem comments_lazy_and_kept_by_check_B:
  "remove_comments ''(* a *) axiom (* b *)'' \<noteq> remove_comments_greedy ''(* a *) axiom (* b *)''
   \<and> check_proofs_for_lemmas ''f.mlw'' ''(* module FooLemmas *)'' \<noteq> []"
  by code_simp

text \<open>
  Claim C9, amended. Before the pattern matching of Check A, every block comment is
  stripped, where a block comment runs from the open marker \<^verbatim>\<open>(*\<close> to the first close
  marker \<^verbatim>\<open>*)\<close> behind it (lazy, non-nesting), across line boundaries: for a text whose
  first open marker is followed by a body \<open>body\<close> free of close markers (newlines
  allowed) and a close marker, the comment is dropped, the text before it is kept and
  the text behind it is stripped in the same way. The errors of Check A do not depend on
  the body: they are those of the same text with an empty comment in its place.
\<close>

theorem remove_comments_strips_lazy_comment:
  assumes "\<not> py_in ''(*'' pre" and "\<not> py_in ''*)'' body"
  shows "remove_comments (pre @ ''(*'' @ body @ ''*)'' @ post) = pre @ remove_comments post
       \<and> check_lemma_axiom_in_lemmas fp (pre @ ''(*'' @ body @ ''*)'' @ post)
           = check_lemma_axiom_in_lemmas fp (pre @ ''(**)'' @ post)"
proof -
  have e: "\<not> py_in ''*)'' []" by simp
  have "remove_comments (pre @ ''(*'' @ [] @ ''*)'' @ post) = pre @ remove_comments post"
    by (rule remove_comments_first_comment [OF assms(1) e])
  then have "remove_comments (pre @ ''(**)'' @ post) = pre @ remove_comments post" by simp
  then show ?thesis
    using remove_comments_first_comment [OF assms, of post]
    by (simp add: check_lemma_axiom_in_lemmas_def)
qed

theorem remove_comments_strips_lazy_comment_witness:
  "remove_comments (''module Foo\<newline>'' @ ''(*'' @ '' axiom a\<newline> val lemma b '' @ ''*)''
       @ ''\<newline>let x = 1 (* y *)'') = ''module Foo\<newline>\<newline>let x = 1 ''
   \<and> check_lemma_axiom_in_lemmas ''f.mlw''
       (''module Foo\<newline>'' @ ''(*'' @ '' axiom a\<newline> val lemma b '' @ ''*)''
          @ ''\<newline>let x = 1 (* y *)'') = []"
proof -
  have 1: "\<not> py_in ''(*'' ''module Foo\<newline>''" by code_simp
  have 2: "\<not> py_in ''*)'' '' axiom a\<newline> val lemma b ''" by code_simp
  have 3: "remove_comments ''\<newline>let x = 1 (* y *)'' = ''\<newline>let x = 1 ''" by code_simp
  have 4: "check_lemma_axiom_in_lemmas ''f.mlw''
             (''module Foo\<newline>'' @ ''(**)'' @ ''\<newline>let x = 1 (* y *)'') = []"
    by code_simp
  show ?thesis
    using remove_comments_strips_lazy_comment [OF 1 2, of "''\<newline>let x = 1 (* y *)''" "''f.mlw''"] 3 4
    by simp
qed

subsection \<open>Check B\<close>

text \<open>
  Claim C8 does not hold on the code. A module \<^verbatim>\<open>LemmasALemmas\<close> is declared together
  with the exact ascription \<^verbatim>\<open>module LemmasAProofs : LemmasALemmas\<close>, yet
  \<open>check_proofs_for_lemmas\<close> reports it: \<^verbatim>\<open>replace\<close> rewrites every occurrence of
  \<^verbatim>\<open>Lemmas\<close>, not the suffix, and looks for \<^verbatim>\<open>ProofsAProofs\<close>.
\<close>

theorem check_proofs_for_lemmas_replaces_every_Lemmas:
  "check_proofs_for_lemmas ''f.mlw''
     ''module LemmasALemmas\<newline>module LemmasAProofs : LemmasALemmas\<newline>''
   = [pairing_error ''f.mlw'' ''LemmasALemmas'']"
  by code_simp

text \<open>
  The ascribed interface is not compared in full either: group 2 of the pattern has no
  word boundary behind it, so an ascription to \<^verbatim>\<open>FooLemmasX\<close> is taken for one to
  \<^verbatim>\<open>FooLemmas\<close> and no error is reported.
\<close>

lemma check_proofs_for_lemmas_accepts_longer_interface:
  "check_proofs_for_lemmas ''f.mlw'' ''module FooLemmas\<newline>module FooProofs : FooLemmasX\<newline>'' = []"
  by code_simp

text \<open>On the specification's own example the check behaves as described.\<close>

lemma check_proofs_for_lemmas_example:
  "check_proofs_for_lemmas ''f.mlw'' ''module FooLemmas\<newline>'' = [pairing_error ''f.mlw'' ''FooLemmas'']"
  "check_proofs_for_lemmas ''f.mlw'' ''module FooLemmas\<newline>module FooProofs : FooLemmas\<newline>'' = []"
  by code_simp+

end
